theory Spec2Isabelle
  imports Main "HOL-Library.Char_ord" "HOL-Library.List_Lexorder"
begin

section \<open>The folder collection of \<open>folder_handler.py\<close>\<close>

text \<open>
  An \<open>AudioFile\<close> is used by \<open>folder_handler.py\<close> through its attributes only:
  \<open>filepath\<close>, \<open>filename\<close>, \<open>extension\<close>, \<open>filebase\<close> and \<open>channelnum\<close>. The class itself
  lives in \<open>audio_file_handler.py\<close>; its tests fix the attribute types: every one of them
  is a Python \<open>str\<close>, the channel token included (\<open>channelnum == "2"\<close> for \<open>sin.R\<close>,
  \<open>channelnum == ""\<close> when there is no token).
\<close>

record AudioFile =
  filepath :: string
  filename :: string
  extension :: string
  filebase :: string
  channelnum :: string

text \<open>
  The attributes of a \<open>FileList\<close> that \<open>__init__\<close> creates, apart from the options
  dictionary: \<open>_files\<close>, \<open>_joinlists\<close> and \<open>_folderpath\<close>. \<open>None\<close> is \<open>None\<close>.
\<close>

record FileList =
  FL_files :: "AudioFile list"
  FL_joinlists :: "(string \<times> AudioFile list) list option"
  FL_folderpath :: string

text \<open>
  Python truthiness of the value assigned to \<open>folderpath\<close>: it is \<open>None\<close> (the default of
  \<open>__init__\<close>) or a string, and a string is truthy when it is not empty.
\<close>

fun truthy :: "string option \<Rightarrow> bool" where
  "truthy None = False"
| "truthy (Some s) = (s \<noteq> [])"

text \<open>
  The setter of \<open>folderpath\<close>. \<open>os.path.exists\<close> is the parameter \<open>path_exists\<close>; the
  \<open>and\<close> of the source short-circuits, so it is asked about strings only.
\<close>

fun folderpath_setter :: "(string \<Rightarrow> bool) \<Rightarrow> string option \<Rightarrow> FileList \<Rightarrow> FileList" where
  "folderpath_setter path_exists None L = L"
| "folderpath_setter path_exists (Some folder) L =
     (if folder \<noteq> [] \<and> path_exists folder
      then L\<lparr>FL_files := [], FL_folderpath := folder\<rparr>
      else L)"

text \<open>
  \<open>__init__\<close> with the folder it is given (the options dictionary is not modelled).
\<close>

definition FileList_init :: "(string \<Rightarrow> bool) \<Rightarrow> string option \<Rightarrow> FileList" where
  "FileList_init path_exists folder =
     folderpath_setter path_exists folder
       \<lparr>FL_files = [], FL_joinlists = None, FL_folderpath = []\<rparr>"

text \<open>
  The property \<open>files\<close> lists the folder: \<open>_search_folder\<close> builds one \<open>AudioFile\<close> per
  audio file that \<open>os.listdir\<close> returns. The listing is the parameter \<open>listing\<close>, a
  function of the folder path.
\<close>

definition files :: "(string \<Rightarrow> AudioFile list) \<Rightarrow> FileList \<Rightarrow> AudioFile list" where
  "files listing L = listing (FL_folderpath L)"

text \<open>\<open>__len__\<close>: the listing is not even read while the folder path is the empty string.\<close>

definition len_FileList :: "(string \<Rightarrow> AudioFile list) \<Rightarrow> FileList \<Rightarrow> nat" where
  "len_FileList listing L =
     (if FL_folderpath L \<noteq> [] then length (files listing L) else 0)"

section \<open>Join group detection: \<open>FileList._search_for_join\<close>\<close>

text \<open>
  The dictionary \<open>d\<close> of the loop maps a base name to the list of \<open>(file, channelnum)\<close>
  pairs collected for it. A Python dictionary keeps its keys in insertion order, so it is
  an association list here; the loop never adds a key twice.
\<close>

type_synonym joindict = "(string \<times> (AudioFile \<times> string) list) list"

text \<open>
  Modelled from the spec: \<open>AudioFile.__eq__\<close> is in \<open>audio_file_handler.py\<close>, which is
  not among the sources. The design notes say that files are equal by path, so a file
  equals a string only when that string is its path.
\<close>

definition AudioFile_eq_str :: "AudioFile \<Rightarrow> string \<Rightarrow> bool" where
  "AudioFile_eq_str f s = (filepath f = s)"

text \<open>
  \<^verbatim>\<open>flat_d = [y for x in d for y in x]\<close>: iterating a dictionary yields its keys, and
  iterating a key yields its characters, so \<open>flat_d\<close> is the list of the one-character
  strings of the base names collected so far.
\<close>

definition flat_d :: "joindict \<Rightarrow> string list" where
  "flat_d d = concat (map (\<lambda>(x, _). map (\<lambda>y. [y]) x) d)"

text \<open>\<^verbatim>\<open>f in flat_d\<close>: some element of the list equals the file.\<close>

definition in_flat_d :: "AudioFile \<Rightarrow> joindict \<Rightarrow> bool" where
  "in_flat_d f d = list_ex (AudioFile_eq_str f) (flat_d d)"

text \<open>\<^verbatim>\<open>d[base].append(x)\<close>: the list stored under \<open>base\<close> grows in place.\<close>

definition dict_append :: "string \<Rightarrow> AudioFile \<times> string \<Rightarrow> joindict \<Rightarrow> joindict" where
  "dict_append base x d = map (\<lambda>(k, v). if k = base then (k, v @ [x]) else (k, v)) d"

text \<open>
  One round of the loop \<^verbatim>\<open>for f in self\<close>: a file without a channel token is skipped,
  so is one found in \<open>flat_d\<close>, and so is one whose token is already taken in the list of
  its base; a base that is not a key yet (the \<open>KeyError\<close> branch) gets an empty list
  first. Otherwise \<open>(f, ch)\<close> is appended.
\<close>

definition join_step :: "joindict \<Rightarrow> AudioFile \<Rightarrow> joindict" where
  "join_step d f =
     (if channelnum f = [] then d
      else if in_flat_d f d then d
      else let base = filebase f; ch = channelnum f
           in (case map_of d base of
                 Some v \<Rightarrow> if ch \<in> set (map snd v) then d else dict_append base (f, ch) d
               | None \<Rightarrow> dict_append base (f, ch) (d @ [(base, [])])))"

text \<open>
  \<open>_search_for_join\<close>: nothing for a collection of length at most 1; otherwise the loop over
  the files in listing order, and then the dictionary comprehension, which keeps the bases
  with more than one member and sorts each list with \<open>sorted(v, key=lambda y: y[1])\<close>
  (a stable sort on the channel token, a string). The generator stored for a base is
  modelled by the list of the files it yields.
\<close>

definition search_for_join :: "(string \<Rightarrow> AudioFile list) \<Rightarrow> FileList \<Rightarrow> (string \<times> AudioFile list) list" where
  "search_for_join listing L =
     (if len_FileList listing L \<le> 1 then []
      else let d = foldl join_step [] (files listing L)
           in map (\<lambda>(k, v). (k, map fst (sort_key snd v)))
                (filter (\<lambda>(k, v). length v > 1) d))"

text \<open>
  An example folder \<open>takes\<close>: \<open>take.2.wav\<close>, \<open>take.10.wav\<close>, \<open>mix.wav\<close> (no token),
  \<open>solo.L.wav\<close>, \<open>take.R.wav\<close> (the letter R reads as token 2, as in the tests) and
  \<open>take.1.wav\<close>, in this listing order.
\<close>

definition channel_file :: "string \<Rightarrow> string \<Rightarrow> string \<Rightarrow> string \<Rightarrow> AudioFile" where
  "channel_file folder name base ch =
     \<lparr>filepath = folder @ ''/'' @ name @ ''.wav'', filename = name, extension = ''.wav'',
      filebase = base, channelnum = ch\<rparr>"

definition takes_listing :: "string \<Rightarrow> AudioFile list" where
  "takes_listing folder =
     [channel_file folder ''take.2'' ''take'' ''2'',
      channel_file folder ''take.10'' ''take'' ''10'',
      channel_file folder ''mix'' ''mix'' [],
      channel_file folder ''solo.L'' ''solo'' ''1'',
      channel_file folder ''take.R'' ''take'' ''2'',
      channel_file folder ''take.1'' ''take'' ''1'']"

definition takes_folder :: FileList where
  "takes_folder = \<lparr>FL_files = [], FL_joinlists = None, FL_folderpath = ''takes''\<rparr>"

section \<open>The backup folder path of \<open>FileList.backup\<close>\<close>

text \<open>
  \<open>os.path.join\<close> of two components, as \<open>posixpath\<close> has it: an absolute second
  component replaces the first, and a separator is put between them unless the first is
  empty or ends with one.
\<close>

definition os_path_join :: "string \<Rightarrow> string \<Rightarrow> string" where
  "os_path_join a b =
     (if b \<noteq> [] \<and> hd b = CHR ''/'' then b
      else if a = [] \<or> last a = CHR ''/'' then a @ b
      else a @ ''/'' @ b)"

text \<open>
  \<open>os.path.split\<close> of \<open>posixpath\<close>: the tail is what follows the last separator, the head
  what precedes it, with its trailing separators removed unless it consists of separators
  only.
\<close>

definition os_path_split :: "string \<Rightarrow> string \<times> string" where
  "os_path_split p =
     (let tail = rev (takeWhile (\<lambda>c. c \<noteq> CHR ''/'') (rev p));
          head = rev (dropWhile (\<lambda>c. c \<noteq> CHR ''/'') (rev p))
      in if head \<noteq> [] \<and> \<not> list_all (\<lambda>c. c = CHR ''/'') head
         then (rev (dropWhile (\<lambda>c. c = CHR ''/'') (rev head)), tail)
         else (head, tail))"

text \<open>\<open>s.rstrip("\\")\<close>: the trailing backslashes (character 92) are removed.\<close>

definition rstrip_backslash :: "string \<Rightarrow> string" where
  "rstrip_backslash s = rev (dropWhile (\<lambda>c. c = CHR 0x5C) (rev s))"

text \<open>\<open>str(i)\<close> for a natural number: its decimal digits, no sign and no leading zero.\<close>

definition digit :: "nat \<Rightarrow> char" where
  "digit d = ''0123456789'' ! d"

fun str :: "nat \<Rightarrow> string" where
  "str n = (if n < 10 then [digit n] else str (n div 10) @ [digit (n mod 10)])"

declare str.simps [simp del]

text \<open>
  The nested helper \<open>join(*args, inc="", ext="")\<close>. Both calls of the source pass two
  positional arguments, \<open>a\<close> and \<open>b\<close> here. The counter \<open>"0"\<close> is left out of the name.
\<close>

definition join :: "string \<Rightarrow> string \<Rightarrow> string \<Rightarrow> string \<Rightarrow> string" where
  "join a b inc ext =
     rstrip_backslash (os_path_join a b)
       @ (if inc \<noteq> ''0'' then inc else [])
       @ (if ext \<noteq> [] then ext else [])"

text \<open>
  The \<open>i\<close>-th name that the loop of \<open>unique\<close> probes.
\<close>

definition candidate :: "string \<Rightarrow> string \<Rightarrow> string \<Rightarrow> nat \<Rightarrow> string" where
  "candidate a b ext i = join a b (str i) ext"

text \<open>
  The loop of the nested helper \<open>unique\<close>:
  \<^verbatim>\<open>while os.path.exists(name := join(*args, inc=str(i), **kwargs)): i += 1\<close>.
  The disk is the list of the paths that exist; \<open>os.path.exists\<close> is membership in it.
  Nothing in the loop writes to the disk, so the disk is an argument only.
\<close>

function unique_loop :: "string list \<Rightarrow> string \<Rightarrow> string \<Rightarrow> string \<Rightarrow> nat \<Rightarrow> string" where
  "unique_loop disk a b ext i =
     (let name = candidate a b ext i
      in if name \<in> set disk then unique_loop disk a b ext (i + 1) else name)"
  by pat_completeness auto

text \<open>Reading a decimal string back, to show that \<open>str\<close> never repeats a name.\<close>

definition digit_val :: "char \<Rightarrow> nat" where
  "digit_val c = of_char c - 48"

definition str_val :: "string \<Rightarrow> nat" where
  "str_val s = foldl (\<lambda>acc c. 10 * acc + digit_val c) 0 s"

lemma digit_val_digit: "d < 10 \<Longrightarrow> digit_val (digit d) = d"
proof -
  assume "d < 10"
  then have "d \<in> {0, 1, 2, 3, 4, 5, 6, 7, 8, 9}" by auto
  then show ?thesis by (auto simp: digit_val_def digit_def)
qed

lemma str_val_str: "str_val (str n) = n"
proof (induction n rule: str.induct)
  case (1 n)
  show ?case
  proof (cases "n < 10")
    case True
    then show ?thesis by (simp add: str.simps [of n] str_val_def digit_val_digit)
  next
    case False
    with 1 have "str_val (str (n div 10)) = n div 10" by simp
    with False show ?thesis
      by (simp add: str.simps [of n] str_val_def digit_val_digit)
  qed
qed

lemma str_inject: "str m = str n \<Longrightarrow> m = n"
  by (metis str_val_str)

lemma str_nonempty: "str n \<noteq> []"
  by (subst str.simps) simp

lemma str_zero: "str n = ''0'' \<longleftrightarrow> n = 0"
proof
  assume "str n = ''0''"
  then have "n = str_val ''0''" by (metis str_val_str)
  then show "n = 0" by (simp add: str_val_def digit_val_def)
next
  assume "n = 0"
  then show "str n = ''0''" by (simp add: str.simps [of 0] digit_def)
qed

lemma candidate_inject: "candidate a b ext i = candidate a b ext j \<Longrightarrow> i = j"
  using str_nonempty [of i] str_nonempty [of j]
  by (auto simp: candidate_def join_def str_zero str_inject split: if_splits)

lemma finite_taken: "finite {j. candidate a b ext j \<in> set disk}"
proof -
  have "inj (candidate a b ext)" by (rule injI) (rule candidate_inject)
  then have "finite (candidate a b ext -` set disk)" by (simp add: finite_vimageI)
  then show ?thesis by (simp add: vimage_def)
qed

text \<open>
  The loop ends: the candidates are pairwise distinct and the disk holds finitely many
  paths, so each round leaves fewer taken candidates ahead.
\<close>

termination unique_loop
proof (relation "measure (\<lambda>(disk, a, b, ext, i).
          card {j. i \<le> j \<and> candidate a b ext j \<in> set disk})")
  show "wf (measure (\<lambda>(disk, a, b, ext, i).
          card {j. i \<le> j \<and> candidate a b ext j \<in> set disk}))"
    by simp
next
  fix disk a b ext i name
  assume n: "name = candidate a b ext i" and m: "name \<in> set disk"
  let ?S = "\<lambda>k. {j. k \<le> j \<and> candidate a b ext j \<in> set disk}"
  have fin: "finite (?S i)"
    using finite_taken [of a b ext disk] by (rule rev_finite_subset) auto
  have "i \<in> ?S i" using n m by simp
  moreover have "i \<notin> ?S (i + 1)" by simp
  moreover have "?S (i + 1) \<subseteq> ?S i" by auto
  ultimately have "?S (i + 1) \<subset> ?S i" by blast
  then have "card (?S (i + 1)) < card (?S i)"
    using fin by (rule psubset_card_mono [rotated])
  then show "((disk, a, b, ext, i + 1), (disk, a, b, ext, i))
        \<in> measure (\<lambda>(disk, a, b, ext, i).
            card {j. i \<le> j \<and> candidate a b ext j \<in> set disk})"
    by simp
qed

declare unique_loop.simps [simp del]

text \<open>The nested helper \<open>unique(*args, new=False, **kwargs)\<close>.\<close>

definition unique :: "string list \<Rightarrow> string \<Rightarrow> string \<Rightarrow> bool \<Rightarrow> string \<Rightarrow> string" where
  "unique disk a b new ext =
     (if \<not> new then join a b [] ext else unique_loop disk a b ext 0)"

text \<open>
  The folder that \<open>FileList.backup(folder, newFolder)\<close> backs up into. The source tests
  \<open>not bakpath or bakpath.isspace\<close>, and \<open>bakpath.isspace\<close> is a bound method, which is
  truthy: the base folder is the collection's own folder whatever \<open>bakpath\<close> is.
\<close>

definition isspace_method_truthy :: "string \<Rightarrow> bool" where
  "isspace_method_truthy s = True"

definition backup_folderpath :: "string list \<Rightarrow> FileList \<Rightarrow> string \<Rightarrow> bool \<Rightarrow> string" where
  "backup_folderpath disk L folder newFolder =
     (let (bakpath, bakfolder) = os_path_split folder;
          path = (if bakpath = [] \<or> isspace_method_truthy bakpath
                  then FL_folderpath L else bakpath)
      in unique disk path bakfolder newFolder [])"

section \<open>The naming convention of an audio file\<close>

text \<open>
  Modelled from the spec: the parse of a file name into \<open>filebase\<close> and channel token is
  done by \<open>AudioFile\<close> in \<open>audio_file_handler.py\<close>, which is not among the sources. The
  data model describes the result as the split of the file name at the last occurrence of
  the delimiter, the token being valid when it is a single letter or a positive integer
  in decimal; \<open>test_file_names\<close> gives four points of it: \<open>sin\<close> has base \<open>sin\<close> and no
  token, \<open>sin.R\<close> has base \<open>sin\<close>, \<open>sin.wave.R\<close> has base \<open>sin.wave\<close>, and \<open>sin.wave\<close> has
  base \<open>sin.wave\<close> and no token.

  \<open>rsplit1 d s\<close> is \<open>s.rsplit(d, 1)\<close> for a non-empty \<open>d\<close>, the split that
  \<open>FileList._get_join_options\<close> applies to \<open>filename\<close>: \<open>None\<close> when \<open>d\<close> does not occur
  in \<open>s\<close>, else what stands before and after the last occurrence.
\<close>

definition isalpha :: "char \<Rightarrow> bool" where
  "isalpha c \<longleftrightarrow> (CHR ''a'' \<le> c \<and> c \<le> CHR ''z'') \<or> (CHR ''A'' \<le> c \<and> c \<le> CHR ''Z'')"

definition isdigit :: "char \<Rightarrow> bool" where
  "isdigit c \<longleftrightarrow> CHR ''0'' \<le> c \<and> c \<le> CHR ''9''"

fun rsplit1 :: "string \<Rightarrow> string \<Rightarrow> (string \<times> string) option" where
  "rsplit1 d [] = None"
| "rsplit1 d (c # cs) =
     (case rsplit1 d cs of
        Some (b, t) \<Rightarrow> Some (c # b, t)
      | None \<Rightarrow> if take (length d) (c # cs) = d then Some ([], drop (length d) (c # cs))
                else None)"

text \<open>
  Modelled from the spec: a valid channel token is a single letter or a positive integer
  written in decimal.
\<close>

definition valid_token :: "string \<Rightarrow> bool" where
  "valid_token t \<longleftrightarrow>
     (length t = 1 \<and> isalpha (hd t))
     \<or> (t \<noteq> [] \<and> list_all isdigit t \<and> list_ex (\<lambda>c. c \<noteq> CHR ''0'') t)"

text \<open>
  Modelled from the spec: the result of the parse is the pair of the base and the token,
  the token absent and the base the whole file name when the delimiter does not occur or
  what follows its last occurrence is not a valid token.
\<close>

definition naming_parse :: "string \<Rightarrow> string \<Rightarrow> string \<times> string option" where
  "naming_parse name d =
     (case rsplit1 d name of
        None \<Rightarrow> (name, None)
      | Some (b, t) \<Rightarrow> if valid_token t then (b, Some t) else (name, None))"

text \<open>
  \<open>last_split d name b t\<close>: \<open>name\<close> is \<open>b\<close>, the delimiter and \<open>t\<close>, and no occurrence of
  the delimiter in \<open>name\<close> starts further right.
\<close>

definition last_split :: "string \<Rightarrow> string \<Rightarrow> string \<Rightarrow> string \<Rightarrow> bool" where
  "last_split d name b t \<longleftrightarrow>
     name = b @ d @ t \<and> (\<forall>b' t'. name = b' @ d @ t' \<longrightarrow> length b' \<le> length b)"

section \<open>The dispatch of an action: \<open>AudioFile.proceed\<close>\<close>

text \<open>
  The actions of an audio file and their display names, as \<open>test_action\<close> and
  \<open>test_proceed_read_only\<close> give them: \<open>D\<close>, \<open>M\<close>, \<open>R\<close>, \<open>S\<close>, \<open>J\<close> read back as
  \<open>Default\<close>, \<open>Monoize\<close>, \<open>Remove\<close>, \<open>Split\<close>, \<open>Join\<close>, and the action \<open>N\<close> is reported
  as \<open>None\<close>.
\<close>

datatype action = Default | Monoize | Remove | Split | Join | NoAction

fun action_name :: "action \<Rightarrow> string" where
  "action_name Default = ''Default''"
| "action_name Monoize = ''Monoize''"
| "action_name Remove = ''Remove''"
| "action_name Split = ''Split''"
| "action_name Join = ''Join''"
| "action_name NoAction = ''None''"

text \<open>
  The four operations that change the disk, each a function on the state of the disk.
  \<open>test_proceed\<close> replaces them by mocks in the same way.
\<close>

record 'd operations =
  op_monoize :: "'d \<Rightarrow> 'd"
  op_remove :: "'d \<Rightarrow> 'd"
  op_split :: "'d \<Rightarrow> 'd"
  op_join :: "'d \<Rightarrow> 'd"

text \<open>
  Modelled from the spec: \<open>AudioFile.proceed\<close> is in \<open>audio_file_handler.py\<close>, which is
  not among the sources. It dispatches to the operation of the current action, the action
  \<open>Default\<close> being resolved first (\<open>resolved\<close> is what the resolution returns), and under
  read-only mode it returns the name of that action instead of running the operation.
  The sentence of the specification on \<open>Monoize\<close> under read-only mode is decided by
  \<open>test_proceed_read_only\<close>: with the action \<open>M\<close> and \<open>read_only\<close> true, \<open>proceed\<close> returns
  \<open>Monoize\<close> and \<open>monoize\<close> is not called. What \<open>proceed\<close> returns outside read-only mode
  is not described; it is \<open>None\<close> here.
\<close>

fun dispatch :: "'d operations \<Rightarrow> action \<Rightarrow> 'd \<Rightarrow> 'd" where
  "dispatch ops Monoize d = op_monoize ops d"
| "dispatch ops Remove d = op_remove ops d"
| "dispatch ops Split d = op_split ops d"
| "dispatch ops Join d = op_join ops d"
| "dispatch ops NoAction d = d"
| "dispatch ops Default d = d"

definition proceed ::
  "'d operations \<Rightarrow> action \<Rightarrow> bool \<Rightarrow> action \<Rightarrow> 'd \<Rightarrow> string option \<times> 'd" where
  "proceed ops resolved read_only act d =
     (let a = (if act = Default then resolved else act)
      in if read_only then (Some (action_name a), d) else (None, dispatch ops a d))"

text \<open>
  Operations on a disk that is the list of its file names: \<open>monoize\<close> writes a file,
  \<open>remove\<close> deletes.
\<close>

definition mono_ops :: "string list operations" where
  "mono_ops = \<lparr>op_monoize = (\<lambda>d. ''sin-s.wav (mono)'' # d), op_remove = (\<lambda>d. []),
     op_split = (\<lambda>d. d), op_join = (\<lambda>d. d)\<rparr>"

section \<open>The folder path setter\<close>

text \<open>
  Claim C10. Assigning \<open>p\<close> to \<open>folderpath\<close> changes the collection only when \<open>p\<close> is truthy
  and names an existing path: then the stored path becomes \<open>p\<close> and \<open>_files\<close> is reset to the
  empty list, every other attribute staying as it was; for a falsy \<open>p\<close> or a path that does
  not exist the collection is returned as it was. A collection whose folder path is the
  empty string has length 0, whatever the listing would give.
\<close>

theorem folderpath_setter_spec:
  "(truthy p \<and> path_exists (the p) \<longrightarrow>
      folderpath_setter path_exists p L = L\<lparr>FL_files := [], FL_folderpath := the p\<rparr>)
   \<and> (\<not> (truthy p \<and> path_exists (the p)) \<longrightarrow> folderpath_setter path_exists p L = L)
   \<and> (FL_folderpath L = [] \<longrightarrow> len_FileList listing L = 0)"
  by (cases p) (simp_all add: len_FileList_def)

theorem folderpath_setter_spec_witness:
  "folderpath_setter (\<lambda>s. s = ''takes'') (Some ''takes'')
       \<lparr>FL_files = [\<lparr>filepath = ''old/a.wav'', filename = ''a'', extension = ''.wav'',
                     filebase = ''a'', channelnum = ''''\<rparr>],
        FL_joinlists = None, FL_folderpath = ''old''\<rparr>
     = \<lparr>FL_files = [], FL_joinlists = None, FL_folderpath = ''takes''\<rparr>
   \<and> folderpath_setter (\<lambda>s. s = ''takes'') (Some ''gone'')
       \<lparr>FL_files = [], FL_joinlists = None, FL_folderpath = ''old''\<rparr>
     = \<lparr>FL_files = [], FL_joinlists = None, FL_folderpath = ''old''\<rparr>
   \<and> len_FileList (\<lambda>_. [\<lparr>filepath = ''a.wav'', filename = ''a'', extension = ''.wav'',
                          filebase = ''a'', channelnum = ''''\<rparr>])
       (FileList_init (\<lambda>s. s = ''takes'') None) = 0"
  using folderpath_setter_spec [of "Some ''takes''" "\<lambda>s. s = ''takes''"
      "\<lparr>FL_files = [\<lparr>filepath = ''old/a.wav'', filename = ''a'', extension = ''.wav'',
                     filebase = ''a'', channelnum = ''''\<rparr>],
        FL_joinlists = None, FL_folderpath = ''old''\<rparr>"
      "\<lambda>_. [\<lparr>filepath = ''a.wav'', filename = ''a'', extension = ''.wav'',
                          filebase = ''a'', channelnum = ''''\<rparr>]"]
    folderpath_setter_spec [of "Some ''gone''" "\<lambda>s. s = ''takes''"
      "\<lparr>FL_files = [], FL_joinlists = None, FL_folderpath = ''old''\<rparr>"
      "\<lambda>_. [\<lparr>filepath = ''a.wav'', filename = ''a'', extension = ''.wav'',
                          filebase = ''a'', channelnum = ''''\<rparr>]"]
    folderpath_setter_spec [of None "\<lambda>s. s = ''takes''"
      "FileList_init (\<lambda>s. s = ''takes'') None"
      "\<lambda>_. [\<lparr>filepath = ''a.wav'', filename = ''a'', extension = ''.wav'',
                          filebase = ''a'', channelnum = ''''\<rparr>]"]
  by (simp add: FileList_init_def)

section \<open>The unique backup path\<close>

lemma unique_loop_first_free:
  "\<exists>k\<ge>i. unique_loop disk a b ext i = candidate a b ext k
     \<and> candidate a b ext k \<notin> set disk
     \<and> (\<forall>j. i \<le> j \<and> j < k \<longrightarrow> candidate a b ext j \<in> set disk)"
proof (induction disk a b ext i rule: unique_loop.induct)
  case (1 disk a b ext i)
  show ?case
  proof (cases "candidate a b ext i \<in> set disk")
    case True
    with 1 obtain k where k: "i + 1 \<le> k"
        "unique_loop disk a b ext (i + 1) = candidate a b ext k"
        "candidate a b ext k \<notin> set disk"
        "\<forall>j. i + 1 \<le> j \<and> j < k \<longrightarrow> candidate a b ext j \<in> set disk"
      by auto
    have "\<forall>j. i \<le> j \<and> j < k \<longrightarrow> candidate a b ext j \<in> set disk"
    proof (intro allI impI)
      fix j assume "i \<le> j \<and> j < k"
      then have "j = i \<or> (i + 1 \<le> j \<and> j < k)" by auto
      then show "candidate a b ext j \<in> set disk" using True k(4) by auto
    qed
    moreover have "unique_loop disk a b ext i = candidate a b ext k"
      using True k(2) by (simp add: unique_loop.simps [of disk a b ext i])
    moreover have "i \<le> k" using k(1) by simp
    ultimately show ?thesis using k(3) by blast
  next
    case False
    then have "unique_loop disk a b ext i = candidate a b ext i"
      by (simp add: unique_loop.simps [of disk a b ext i])
    with False show ?thesis by auto
  qed
qed

lemma candidate_0: "candidate a b ext 0 = rstrip_backslash (os_path_join a b) @ ext"
  by (simp add: candidate_def join_def str_zero)

lemma candidate_pos:
  "0 < i \<Longrightarrow> candidate a b ext i = rstrip_backslash (os_path_join a b) @ str i @ ext"
  by (simp add: candidate_def join_def str_zero)

text \<open>
  Claim C7, as the code has it. With \<open>new\<close> true, \<open>unique\<close> probes the joined name itself
  and then the name followed by 1, 2, 3, ... (the counter 0 is never written, so there is
  no candidate ending in 0 between them), and returns the first candidate that is not on
  the disk: every earlier candidate exists and the returned path does not. The disk is
  only read. A second call on the same disk therefore returns the same path; once the
  caller has created the returned path, the next call returns a different one.
\<close>

theorem unique_first_free:
  "(\<exists>k. unique disk a b True ext = candidate a b ext k
        \<and> (\<forall>j<k. candidate a b ext j \<in> set disk))
   \<and> unique disk a b True ext \<notin> set disk
   \<and> candidate a b ext 0 = rstrip_backslash (os_path_join a b) @ ext
   \<and> (\<forall>i>0. candidate a b ext i = rstrip_backslash (os_path_join a b) @ str i @ ext)
   \<and> unique (unique disk a b True ext # disk) a b True ext \<noteq> unique disk a b True ext"
proof -
  obtain k where k: "unique_loop disk a b ext 0 = candidate a b ext k"
      "candidate a b ext k \<notin> set disk"
      "\<forall>j. 0 \<le> j \<and> j < k \<longrightarrow> candidate a b ext j \<in> set disk"
    using unique_loop_first_free [of 0 disk a b ext] by auto
  have u: "unique disk a b True ext = candidate a b ext k"
    using k(1) by (simp add: unique_def)
  have first: "\<exists>k. unique disk a b True ext = candidate a b ext k
        \<and> (\<forall>j<k. candidate a b ext j \<in> set disk)"
    using u k(3) by auto
  have free: "unique disk a b True ext \<notin> set disk"
    using u k(2) by simp
  obtain k' where k': "unique_loop (candidate a b ext k # disk) a b ext 0 = candidate a b ext k'"
      "candidate a b ext k' \<notin> set (candidate a b ext k # disk)"
    using unique_loop_first_free [of 0 "candidate a b ext k # disk" a b ext] by auto
  have "unique (candidate a b ext k # disk) a b True ext = candidate a b ext k'"
    using k'(1) by (simp add: unique_def)
  moreover have "candidate a b ext k' \<noteq> candidate a b ext k"
    using k'(2) by auto
  ultimately have again:
    "unique (unique disk a b True ext # disk) a b True ext \<noteq> unique disk a b True ext"
    unfolding u by simp
  show ?thesis
    using first free again candidate_0 [of a b ext] candidate_pos [of _ a b ext] by blast
qed

theorem unique_first_free_witness:
  "unique [''takes/bak'', ''takes/bak1''] ''takes'' ''bak'' True [] = candidate ''takes'' ''bak'' [] 2
   \<and> candidate ''takes'' ''bak'' [] 0 = ''takes/bak''
   \<and> candidate ''takes'' ''bak'' [] 1 = ''takes/bak1''
   \<and> candidate ''takes'' ''bak'' [] 2 = ''takes/bak2''
   \<and> unique [''takes/bak'', ''takes/bak1''] ''takes'' ''bak'' True [] \<notin> set [''takes/bak'', ''takes/bak1'']
   \<and> unique [''takes/bak2'', ''takes/bak'', ''takes/bak1''] ''takes'' ''bak'' True [] = ''takes/bak3''"
  using unique_first_free [of "[''takes/bak'', ''takes/bak1'']" "''takes''" "''bak''" "[]"]
  by (simp add: unique_def unique_loop.simps candidate_def join_def os_path_join_def
      rstrip_backslash_def str.simps digit_def)

text \<open>
  Claim C7 as the specification words it fails twice. The name followed by 0 is never
  probed: with \<open>takes/bak\<close> on the disk and \<open>takes/bak0\<close> free, the path returned is
  \<open>takes/bak1\<close>. And two calls in a row, with nothing created between them, are two
  calls on the same disk and return the same path; the backup of a folder holding no
  audio file is such a pair (\<open>backup_folderpath\<close> below is the path it computes).
\<close>

theorem unique_probe_counterexample:
  "unique [''takes/bak''] ''takes'' ''bak'' True [] = ''takes/bak1''
   \<and> ''takes/bak0'' \<notin> set [''takes/bak'']
   \<and> backup_folderpath [''takes/bak'']
        \<lparr>FL_files = [], FL_joinlists = None, FL_folderpath = ''takes''\<rparr> ''bak'' True = ''takes/bak1''"
  by (simp add: backup_folderpath_def os_path_split_def isspace_method_truthy_def
      unique_def unique_loop.simps candidate_def join_def os_path_join_def
      rstrip_backslash_def str.simps digit_def)

section \<open>Properties of the detection loop\<close>

lemma fst_dict_append: "map fst (dict_append b x d) = map fst d"
  by (induction d) (auto simp: dict_append_def)

lemma map_of_dict_append:
  "map_of (dict_append b x d) k =
     (if k = b then map_option (\<lambda>v. v @ [x]) (map_of d b) else map_of d k)"
  by (induction d) (auto simp: dict_append_def)

text \<open>The three conditions under which a round of the loop leaves \<open>d\<close> as it is.\<close>

definition skipped :: "joindict \<Rightarrow> AudioFile \<Rightarrow> bool" where
  "skipped d f \<longleftrightarrow> channelnum f = [] \<or> in_flat_d f d
     \<or> (\<exists>v. map_of d (filebase f) = Some v \<and> channelnum f \<in> snd ` set v)"

lemma join_step_skipped: "skipped d f \<Longrightarrow> join_step d f = d"
  by (auto simp: skipped_def join_step_def Let_def split: option.splits)

lemma join_step_keys: "distinct (map fst d) \<Longrightarrow> distinct (map fst (join_step d f))"
  by (auto simp: join_step_def Let_def fst_dict_append map_of_eq_None_iff split: option.splits)

lemma map_of_join_step:
  "\<not> skipped d f \<Longrightarrow>
   map_of (join_step d f) =
     (map_of d)(filebase f \<mapsto>
        (case map_of d (filebase f) of None \<Rightarrow> [] | Some v \<Rightarrow> v) @ [(f, channelnum f)])"
  by (rule ext)
     (auto simp: skipped_def join_step_def Let_def map_of_dict_append map_add_def split: option.splits)


text \<open>
  What holds of \<open>d\<close> after the files \<open>xs\<close> have been processed: keys are not repeated,
  the tokens of one base are pairwise distinct, and every pair stored under a base is a
  processed file of that base with its own, non-empty token.
\<close>

definition join_inv :: "AudioFile list \<Rightarrow> joindict \<Rightarrow> bool" where
  "join_inv xs d \<longleftrightarrow>
     distinct (map fst d) \<and>
     (\<forall>k v. map_of d k = Some v \<longrightarrow>
        distinct (map snd v) \<and>
        (\<forall>(f, ch)\<in>set v. f \<in> set xs \<and> filebase f = k \<and> channelnum f = ch \<and> ch \<noteq> []))"

lemma join_inv_step:
  assumes "join_inv xs d"
  shows "join_inv (xs @ [f]) (join_step d f)"
proof (cases "skipped d f")
  case True
  with assms show ?thesis by (fastforce simp: join_step_skipped join_inv_def)
next
  case False
  have keys: "distinct (map fst (join_step d f))"
    using assms by (simp add: join_inv_def join_step_keys)
  have ch: "channelnum f \<noteq> []" using False by (simp add: skipped_def)
  have fresh: "\<And>v. map_of d (filebase f) = Some v \<Longrightarrow> channelnum f \<notin> snd ` set v"
    using False by (simp add: skipped_def)
  show ?thesis
    unfolding join_inv_def
  proof (intro conjI allI impI)
    show "distinct (map fst (join_step d f))" by (rule keys)
  next
    fix k v assume kv: "map_of (join_step d f) k = Some v"
    show "distinct (map snd v)"
    proof (cases "k = filebase f")
      case True
      with kv False show ?thesis
        using assms fresh
        by (auto simp: map_of_join_step join_inv_def split: option.splits)
    next
      case False
      with kv \<open>\<not> skipped d f\<close> assms show ?thesis
        by (auto simp: map_of_join_step join_inv_def)
    qed
  next
    fix k v assume kv: "map_of (join_step d f) k = Some v"
    show "\<forall>(g, c)\<in>set v. g \<in> set (xs @ [f]) \<and> filebase g = k \<and> channelnum g = c \<and> c \<noteq> []"
    proof (cases "k = filebase f")
      case True
      with kv False show ?thesis
        using assms ch
        by (fastforce simp: map_of_join_step join_inv_def split: option.splits)
    next
      case False
      with kv \<open>\<not> skipped d f\<close> assms show ?thesis
        by (fastforce simp: map_of_join_step join_inv_def)
    qed
  qed
qed

lemma join_inv_foldl: "join_inv xs d \<Longrightarrow> join_inv (xs @ ys) (foldl join_step d ys)"
proof (induction ys arbitrary: xs d)
  case Nil
  then show ?case by simp
next
  case (Cons y ys)
  from Cons.IH [OF join_inv_step [OF Cons.prems, of y]] show ?case by simp
qed

lemma join_inv_collect: "join_inv xs (foldl join_step [] xs)"
  using join_inv_foldl [of "[]" "[]" xs] by (simp add: join_inv_def)

lemma flat_d_length: "s \<in> set (flat_d d) \<Longrightarrow> length s = 1"
  by (auto simp: flat_d_def)

lemma not_in_flat_d: "length (filepath f) \<noteq> 1 \<Longrightarrow> \<not> in_flat_d f d"
  by (auto simp: in_flat_d_def list_ex_iff AudioFile_eq_str_def dest: flat_d_length)

text \<open>
  First claim wins: a stored file is the first processed file with its base and token, and
  every processed file with a token has that token stored under its base. This needs that
  no round is skipped through \<open>flat_d\<close>.
\<close>

definition first_inv :: "AudioFile list \<Rightarrow> joindict \<Rightarrow> bool" where
  "first_inv xs d \<longleftrightarrow>
     (\<forall>k v f ch. map_of d k = Some v \<and> (f, ch) \<in> set v \<longrightarrow>
        find (\<lambda>h. filebase h = k \<and> channelnum h = ch) xs = Some f) \<and>
     (\<forall>g\<in>set xs. channelnum g \<noteq> [] \<longrightarrow>
        (\<exists>v. map_of d (filebase g) = Some v \<and> channelnum g \<in> snd ` set v))"

lemma first_invD1:
  "first_inv xs d \<Longrightarrow> map_of d k = Some v \<Longrightarrow> (f, ch) \<in> set v \<Longrightarrow>
   find (\<lambda>h. filebase h = k \<and> channelnum h = ch) xs = Some f"
  unfolding first_inv_def by blast

lemma first_invD2:
  "first_inv xs d \<Longrightarrow> g \<in> set xs \<Longrightarrow> channelnum g \<noteq> [] \<Longrightarrow>
   \<exists>v. map_of d (filebase g) = Some v \<and> channelnum g \<in> snd ` set v"
  unfolding first_inv_def by blast

lemma find_snoc:
  "find P (xs @ [x]) = (case find P xs of Some y \<Rightarrow> Some y | None \<Rightarrow> if P x then Some x else None)"
  by (induction xs) auto

lemma first_inv_step:
  assumes fi: "first_inv xs d" and len: "length (filepath f) \<noteq> 1"
  shows "first_inv (xs @ [f]) (join_step d f)"
proof (cases "skipped d f")
  case True
  then have cov: "channelnum f \<noteq> [] \<longrightarrow>
      (\<exists>v. map_of d (filebase f) = Some v \<and> channelnum f \<in> snd ` set v)"
    using not_in_flat_d [OF len, of d] by (auto simp: skipped_def)
  show ?thesis
    unfolding first_inv_def join_step_skipped [OF True]
  proof (intro conjI allI impI ballI)
    fix k v g ch assume "map_of d k = Some v \<and> (g, ch) \<in> set v"
    then have "find (\<lambda>h. filebase h = k \<and> channelnum h = ch) xs = Some g"
      using first_invD1 [OF fi] by blast
    then show "find (\<lambda>h. filebase h = k \<and> channelnum h = ch) (xs @ [f]) = Some g"
      by (simp add: find_snoc)
  next
    fix g assume "g \<in> set (xs @ [f])" "channelnum g \<noteq> []"
    then have "(g \<in> set xs \<or> g = f) \<and> channelnum g \<noteq> []" by auto
    then show "\<exists>v. map_of d (filebase g) = Some v \<and> channelnum g \<in> snd ` set v"
      using first_invD2 [OF fi] cov by blast
  qed
next
  case False
  let ?old = "case map_of d (filebase f) of None \<Rightarrow> [] | Some v \<Rightarrow> v"
  have m: "map_of (join_step d f) = (map_of d)(filebase f \<mapsto> ?old @ [(f, channelnum f)])"
    by (rule map_of_join_step [OF False])
  have ch: "channelnum f \<noteq> []" using False by (simp add: skipped_def)
  have fresh: "\<And>v. map_of d (filebase f) = Some v \<Longrightarrow> channelnum f \<notin> snd ` set v"
    using False by (simp add: skipped_def)
  have none: "find (\<lambda>h. filebase h = filebase f \<and> channelnum h = channelnum f) xs = None"
  proof -
    have "\<not> (filebase g = filebase f \<and> channelnum g = channelnum f)" if "g \<in> set xs" for g
    proof
      assume eq: "filebase g = filebase f \<and> channelnum g = channelnum f"
      with ch have "channelnum g \<noteq> []" by simp
      from first_invD2 [OF fi that this]
      obtain v where "map_of d (filebase g) = Some v" "channelnum g \<in> snd ` set v"
        by blast
      with eq fresh [of v] show False by simp
    qed
    then show ?thesis by (simp add: find_None_iff)
  qed
  show ?thesis
    unfolding first_inv_def
  proof (intro conjI allI impI ballI)
    fix k v g c assume a: "map_of (join_step d f) k = Some v \<and> (g, c) \<in> set v"
    show "find (\<lambda>h. filebase h = k \<and> channelnum h = c) (xs @ [f]) = Some g"
    proof (cases "k = filebase f \<and> (g, c) = (f, channelnum f)")
      case True
      then show ?thesis using none by (simp add: find_snoc)
    next
      case False
      have "\<exists>v'. map_of d k = Some v' \<and> (g, c) \<in> set v'"
      proof (cases "k = filebase f")
        case True
        with a m False show ?thesis by (auto split: option.splits)
      next
        case False
        with a m show ?thesis by auto
      qed
      then have "find (\<lambda>h. filebase h = k \<and> channelnum h = c) xs = Some g"
        using first_invD1 [OF fi] by blast
      then show ?thesis by (simp add: find_snoc)
    qed
  next
    fix g assume g: "g \<in> set (xs @ [f])" "channelnum g \<noteq> []"
    show "\<exists>v. map_of (join_step d f) (filebase g) = Some v \<and> channelnum g \<in> snd ` set v"
    proof (cases "g = f")
      case True
      then show ?thesis by (simp add: m)
    next
      case False
      with g have "g \<in> set xs" by simp
      from first_invD2 [OF fi this g(2)]
      obtain v where v: "map_of d (filebase g) = Some v" "channelnum g \<in> snd ` set v"
        by blast
      show ?thesis
      proof (cases "filebase g = filebase f")
        case True
        with v show ?thesis by (auto simp: m)
      next
        case False
        with v show ?thesis by (simp add: m)
      qed
    qed
  qed
qed

lemma first_inv_foldl:
  "first_inv xs d \<Longrightarrow> \<forall>f\<in>set ys. length (filepath f) \<noteq> 1 \<Longrightarrow>
   first_inv (xs @ ys) (foldl join_step d ys)"
proof (induction ys arbitrary: xs d)
  case Nil
  then show ?case by simp
next
  case (Cons y ys)
  have "first_inv (xs @ [y]) (join_step d y)"
    using Cons.prems by (intro first_inv_step) auto
  from Cons.IH [OF this] Cons.prems(2) show ?case by simp
qed

lemma first_inv_collect:
  "\<forall>f\<in>set xs. length (filepath f) \<noteq> 1 \<Longrightarrow> first_inv xs (foldl join_step [] xs)"
proof -
  assume len: "\<forall>f\<in>set xs. length (filepath f) \<noteq> 1"
  have "first_inv [] []" by (simp add: first_inv_def)
  from first_inv_foldl [OF this len] show ?thesis by simp
qed

lemma join_invD_keys: "join_inv xs d \<Longrightarrow> distinct (map fst d)"
  by (simp add: join_inv_def)

lemma join_invD_tokens: "join_inv xs d \<Longrightarrow> map_of d k = Some v \<Longrightarrow> distinct (map snd v)"
  unfolding join_inv_def by blast

lemma join_invD_member:
  assumes "join_inv xs d" "map_of d k = Some v" "(f, ch) \<in> set v"
  shows "f \<in> set xs \<and> filebase f = k \<and> channelnum f = ch \<and> ch \<noteq> []"
proof -
  from assms(1,2) have "\<forall>(f, ch)\<in>set v. f \<in> set xs \<and> filebase f = k \<and> channelnum f = ch \<and> ch \<noteq> []"
    by (simp add: join_inv_def)
  from bspec [OF this assms(3)] show ?thesis by simp
qed

lemma distinct_of_map: "distinct (map f xs) \<Longrightarrow> distinct xs"
  by (simp add: distinct_map)

lemma distinct_map_sort_key: "distinct (map f (sort_key g xs)) = distinct (map f xs)"
  by (simp add: distinct_map)

lemma search_for_join_member:
  assumes "(k, g) \<in> set (search_for_join listing L)"
  shows "\<exists>v. map_of (foldl join_step [] (files listing L)) k = Some v
           \<and> 1 < length v \<and> g = map fst (sort_key snd v)"
proof -
  let ?d = "foldl join_step [] (files listing L)"
  have "distinct (map fst ?d)"
    using join_inv_collect [of "files listing L"] by (rule join_invD_keys)
  moreover from assms obtain v where "(k, v) \<in> set ?d" "1 < length v" "g = map fst (sort_key snd v)"
    by (auto simp: search_for_join_def Let_def split: if_splits)
  ultimately show ?thesis by auto
qed

lemma search_for_join_keys: "distinct (map fst (search_for_join listing L))"
proof (cases "len_FileList listing L \<le> 1")
  case True
  then show ?thesis by (simp add: search_for_join_def)
next
  case False
  let ?d = "foldl join_step [] (files listing L)"
  have d: "distinct (map fst ?d)"
    using join_inv_collect [of "files listing L"] by (rule join_invD_keys)
  have "map fst (search_for_join listing L) = map fst (filter (\<lambda>(k, v). 1 < length v) ?d)"
    using False by (simp add: search_for_join_def Let_def comp_def case_prod_unfold)
  moreover have "distinct (map fst (filter (\<lambda>(k, v). 1 < length v) ?d))"
    using d by (rule distinct_map_filter)
  ultimately show ?thesis by simp
qed

lemma group_tokens:
  assumes "join_inv xs d" "map_of d k = Some v"
  shows "map channelnum (map fst (sort_key snd v)) = map snd (sort_key snd v)"
proof -
  have "channelnum (fst p) = snd p" if "p \<in> set v" for p
    using join_invD_member [OF assms, of "fst p" "snd p"] that by simp
  then show ?thesis by simp
qed

lemma group_distinct:
  assumes "join_inv xs d" "map_of d k = Some v"
  shows "distinct (map fst (sort_key snd v))"
proof -
  have "distinct (map snd (sort_key snd v))"
    using join_invD_tokens [OF assms] by (simp only: distinct_map_sort_key)
  then have "distinct (map channelnum (map fst (sort_key snd v)))"
    unfolding group_tokens [OF assms] .
  then show ?thesis by (rule distinct_of_map)
qed

lemmas join_eval = search_for_join_def len_FileList_def files_def join_step_def in_flat_d_def
  flat_d_def AudioFile_eq_str_def dict_append_def Let_def channel_file_def takes_listing_def
  takes_folder_def

lemma takes_groups:
  "search_for_join takes_listing takes_folder =
     [(''take'', [channel_file ''takes'' ''take.1'' ''take'' ''1'',
                  channel_file ''takes'' ''take.10'' ''take'' ''10'',
                  channel_file ''takes'' ''take.2'' ''take'' ''2''])]"
  by (simp add: join_eval)

section \<open>Order within a join group\<close>

text \<open>
  What the sort of \<open>_search_for_join\<close> does. Every group that it returns lists its members
  in strictly ascending order of \<open>channelnum\<close>, and the order is the one of Python strings,
  \<open>channelnum\<close> being a \<open>str\<close>: character by character by code, a proper prefix before
  its extensions. Nothing converts a token to a number before the comparison.
\<close>

lemma search_for_join_string_order:
  "(k, g) \<in> set (search_for_join listing L) \<Longrightarrow>
     sorted_wrt (<) (map channelnum g)
     \<and> (\<forall>s t :: string. s < t \<longleftrightarrow> (s, t) \<in> lexord {(a, b). (of_char a :: nat) < of_char b})"
proof -
  assume a: "(k, g) \<in> set (search_for_join listing L)"
  let ?d = "foldl join_step [] (files listing L)"
  from search_for_join_member [OF a] obtain v where
    v: "map_of ?d k = Some v" "g = map fst (sort_key snd v)" by blast
  have inv: "join_inv (files listing L) ?d" by (rule join_inv_collect)
  have "sorted (map snd (sort_key snd v))" by simp
  moreover have "distinct (map snd (sort_key snd v))"
    using join_invD_tokens [OF inv v(1)] by (simp only: distinct_map_sort_key)
  ultimately have "sorted_wrt (<) (map channelnum g)"
    unfolding v(2) group_tokens [OF inv v(1)] strict_sorted_iff by blast
  moreover have "\<forall>s t :: string. s < t \<longleftrightarrow> (s, t) \<in> lexord {(a, b). (of_char a :: nat) < of_char b}"
    by (simp add: list_less_def less_char_def)
  ultimately show ?thesis by blast
qed

text \<open>
  Claim C4: every join group lists its members in ascending order of channel token,
  numeric tokens compared numerically. The code breaks it on the example folder, which
  holds the parts \<open>take.1.wav\<close>, \<open>take.2.wav\<close> and \<open>take.10.wav\<close> of one take: the file
  names parse to the base \<open>take\<close> and the tokens \<open>1\<close>, \<open>10\<close> and \<open>2\<close>, the group of \<open>take\<close>
  comes out as channel 1, channel 10, channel 2, and the channel numbers of that list
  are not ascending. \<open>_get_join_options\<close> takes the first file of the list as the leader
  of the join and the rest, in this order, as the other channels.
\<close>

theorem search_for_join_numeric_order_fails:
  "search_for_join takes_listing takes_folder =
     [(''take'', [channel_file ''takes'' ''take.1'' ''take'' ''1'',
                  channel_file ''takes'' ''take.10'' ''take'' ''10'',
                  channel_file ''takes'' ''take.2'' ''take'' ''2''])]
   \<and> map (\<lambda>f. naming_parse (filename f) ''.'')
        [channel_file ''takes'' ''take.1'' ''take'' ''1'',
         channel_file ''takes'' ''take.10'' ''take'' ''10'',
         channel_file ''takes'' ''take.2'' ''take'' ''2'']
       = [(''take'', Some ''1''), (''take'', Some ''10''), (''take'', Some ''2'')]
   \<and> map (str_val \<circ> channelnum)
        [channel_file ''takes'' ''take.1'' ''take'' ''1'',
         channel_file ''takes'' ''take.10'' ''take'' ''10'',
         channel_file ''takes'' ''take.2'' ''take'' ''2''] = [1, 10, 2]
   \<and> \<not> sorted [1, 10, 2 :: nat]"
  by (simp add: join_eval str_val_def digit_val_def channel_file_def naming_parse_def
      valid_token_def isalpha_def isdigit_def less_eq_char_def)

section \<open>The join groups\<close>

text \<open>
  Claim C5. Every group that \<open>_search_for_join\<close> returns has at least two members, all
  different; each member is a file of the listing with a channel token and with the
  group's base name as its base; a file that is in two returned groups is in one and the
  same group; and, when no listed path is a single character (a listed path is the folder
  joined with a name that ends in an audio extension), each member is the first file of
  the listing with its base and token: the first claim on a token wins.
\<close>

theorem search_for_join_groups:
  assumes "(k, g) \<in> set (search_for_join listing L)"
  shows "2 \<le> length g \<and> distinct g
     \<and> (\<forall>f\<in>set g. f \<in> set (files listing L) \<and> channelnum f \<noteq> [] \<and> filebase f = k)
     \<and> (\<forall>k' g' f. (k', g') \<in> set (search_for_join listing L) \<and> f \<in> set g \<and> f \<in> set g'
            \<longrightarrow> k' = k \<and> g' = g)
     \<and> ((\<forall>f\<in>set (files listing L). length (filepath f) \<noteq> 1) \<longrightarrow>
          (\<forall>f\<in>set g. find (\<lambda>h. filebase h = k \<and> channelnum h = channelnum f)
                          (files listing L) = Some f))"
proof -
  let ?xs = "files listing L"
  let ?d = "foldl join_step [] ?xs"
  from search_for_join_member [OF assms] obtain v where
    v: "map_of ?d k = Some v" "1 < length v" "g = map fst (sort_key snd v)" by blast
  have inv: "join_inv ?xs ?d" by (rule join_inv_collect)
  have mem: "\<forall>(f, ch)\<in>set v. f \<in> set ?xs \<and> filebase f = k \<and> channelnum f = ch \<and> ch \<noteq> []"
    using join_invD_member [OF inv v(1)] by blast
  have setg: "set g = fst ` set v" by (simp add: v(3))
  have len: "2 \<le> length g" using v(2) by (simp add: v(3))
  have dist: "distinct g" using group_distinct [OF inv v(1)] by (simp add: v(3))
  have members: "\<forall>f\<in>set g. f \<in> set ?xs \<and> channelnum f \<noteq> [] \<and> filebase f = k"
    using mem setg by fastforce
  have one: "\<forall>k' g' f. (k', g') \<in> set (search_for_join listing L) \<and> f \<in> set g \<and> f \<in> set g'
            \<longrightarrow> k' = k \<and> g' = g"
  proof (intro allI impI)
    fix k' g' f
    assume b: "(k', g') \<in> set (search_for_join listing L) \<and> f \<in> set g \<and> f \<in> set g'"
    from search_for_join_member [of k' g' listing L] b obtain v' where
      v': "map_of ?d k' = Some v'" "g' = map fst (sort_key snd v')" by blast
    have "\<forall>(f, ch)\<in>set v'. filebase f = k'"
      using join_invD_member [OF inv v'(1)] by blast
    moreover have "f \<in> fst ` set v'" using b by (simp add: v'(2))
    ultimately have "filebase f = k'" by fastforce
    moreover have "filebase f = k" using members b by blast
    ultimately have kk: "k' = k" by simp
    moreover have "g' = g"
      using search_for_join_keys [of listing L] assms b kk
      by (metis eq_key_imp_eq_value)
    ultimately show "k' = k \<and> g' = g" by simp
  qed
  have first: "(\<forall>f\<in>set ?xs. length (filepath f) \<noteq> 1) \<longrightarrow>
          (\<forall>f\<in>set g. find (\<lambda>h. filebase h = k \<and> channelnum h = channelnum f) ?xs = Some f)"
  proof (intro impI ballI)
    fix f assume paths: "\<forall>f\<in>set ?xs. length (filepath f) \<noteq> 1" and f: "f \<in> set g"
    from f setg obtain ch where ch: "(f, ch) \<in> set v" by auto
    from join_invD_member [OF inv v(1) ch] have "channelnum f = ch" by simp
    with first_invD1 [OF first_inv_collect [OF paths] v(1) ch]
    show "find (\<lambda>h. filebase h = k \<and> channelnum h = channelnum f) ?xs = Some f" by simp
  qed
  show ?thesis
    by (intro conjI) (rule len, rule dist, rule members, rule one, rule first)
qed

theorem search_for_join_groups_witness:
  "(''take'', [channel_file ''takes'' ''take.1'' ''take'' ''1'',
               channel_file ''takes'' ''take.10'' ''take'' ''10'',
               channel_file ''takes'' ''take.2'' ''take'' ''2''])
      \<in> set (search_for_join takes_listing takes_folder)
   \<and> find (\<lambda>h. filebase h = ''take'' \<and> channelnum h = ''2'') (files takes_listing takes_folder)
       = Some (channel_file ''takes'' ''take.2'' ''take'' ''2'')
   \<and> channel_file ''takes'' ''take.R'' ''take'' ''2'' \<in> set (files takes_listing takes_folder)
   \<and> channel_file ''takes'' ''mix'' ''mix'' [] \<in> set (files takes_listing takes_folder)
   \<and> channel_file ''takes'' ''solo.L'' ''solo'' ''1'' \<in> set (files takes_listing takes_folder)
   \<and> map fst (search_for_join takes_listing takes_folder) = [''take'']"
proof -
  let ?g = "[channel_file ''takes'' ''take.1'' ''take'' ''1'',
               channel_file ''takes'' ''take.10'' ''take'' ''10'',
               channel_file ''takes'' ''take.2'' ''take'' ''2'']"
  have m: "(''take'', ?g) \<in> set (search_for_join takes_listing takes_folder)"
    by (simp add: takes_groups)
  have paths: "\<forall>f\<in>set (files takes_listing takes_folder). length (filepath f) \<noteq> 1"
    by (simp add: files_def takes_listing_def takes_folder_def channel_file_def)
  have "channel_file ''takes'' ''take.2'' ''take'' ''2'' \<in> set ?g" by simp
  with search_for_join_groups [OF m] paths
  have "find (\<lambda>h. filebase h = ''take'' \<and> channelnum h
            = channelnum (channel_file ''takes'' ''take.2'' ''take'' ''2''))
          (files takes_listing takes_folder)
       = Some (channel_file ''takes'' ''take.2'' ''take'' ''2'')"
    by blast
  then have "find (\<lambda>h. filebase h = ''take'' \<and> channelnum h = ''2'') (files takes_listing takes_folder)
       = Some (channel_file ''takes'' ''take.2'' ''take'' ''2'')"
    by (simp add: channel_file_def)
  moreover have "channel_file ''takes'' ''take.R'' ''take'' ''2'' \<in> set (files takes_listing takes_folder)"
    "channel_file ''takes'' ''mix'' ''mix'' [] \<in> set (files takes_listing takes_folder)"
    "channel_file ''takes'' ''solo.L'' ''solo'' ''1'' \<in> set (files takes_listing takes_folder)"
    by (simp_all add: files_def takes_listing_def takes_folder_def)
  moreover have "map fst (search_for_join takes_listing takes_folder) = [''take'']"
    by (simp add: takes_groups)
  ultimately show ?thesis using m by blast
qed

section \<open>The parse of a file name\<close>

lemma rsplit1_None: "d \<noteq> [] \<Longrightarrow> rsplit1 d s = None \<Longrightarrow> s \<noteq> b @ d @ t"
proof (induction s arbitrary: b)
  case Nil
  then show ?case by simp
next
  case (Cons c cs)
  from Cons.prems(2) have n: "rsplit1 d cs = None" and p: "take (length d) (c # cs) \<noteq> d"
    by (auto split: option.splits if_splits)
  show ?case
  proof
    assume eq: "c # cs = b @ d @ t"
    show False
    proof (cases b)
      case Nil
      with eq have "take (length d) (c # cs) = d" by simp
      with p show False by simp
    next
      case (Cons c' b')
      with eq have "cs = b' @ d @ t" by simp
      with Cons.IH [OF Cons.prems(1) n, of b'] show False by simp
    qed
  qed
qed

lemma rsplit1_Some:
  "d \<noteq> [] \<Longrightarrow> rsplit1 d s = Some (b, t) \<Longrightarrow> last_split d s b t"
  unfolding last_split_def
proof (induction s arbitrary: b)
  case Nil
  then show ?case by simp
next
  case (Cons c cs)
  show ?case
  proof (cases "rsplit1 d cs")
    case None
    with Cons.prems(2) have p: "take (length d) (c # cs) = d" and b: "b = []"
      and t: "t = drop (length d) (c # cs)"
      by (auto split: if_splits)
    have "c # cs = d @ t" using p t by (metis append_take_drop_id)
    moreover have "length b' \<le> length b" if "c # cs = b' @ d @ t'" for b' t'
    proof (cases b')
      case Nil
      then show ?thesis by simp
    next
      case (Cons c' b'')
      with that have "cs = b'' @ d @ t'" by simp
      with rsplit1_None [OF Cons.prems(1) None, of b'' t'] show ?thesis by simp
    qed
    ultimately show ?thesis using b by simp
  next
    case (Some bt)
    obtain b0 t0 where bt: "bt = (b0, t0)" by (cases bt)
    with Some Cons.prems(2) have b: "b = c # b0" and t: "t0 = t" by auto
    from Cons.IH [OF Cons.prems(1), of b0] Some bt t
    have ih: "cs = b0 @ d @ t" "\<forall>b' t'. cs = b' @ d @ t' \<longrightarrow> length b' \<le> length b0" by auto
    have "length b' \<le> length b" if "c # cs = b' @ d @ t'" for b' t'
    proof (cases b')
      case Nil
      then show ?thesis by simp
    next
      case (Cons c' b'')
      with that have "cs = b'' @ d @ t'" by simp
      with ih(2) have "length b'' \<le> length b0" by blast
      with Cons b show ?thesis by simp
    qed
    with ih(1) b show ?thesis by simp
  qed
qed

lemma last_split_unique:
  assumes "last_split d s b t" "last_split d s b' t'"
  shows "b = b' \<and> t = t'"
proof -
  from assms have e: "s = b @ d @ t" "s = b' @ d @ t'" by (simp_all add: last_split_def)
  from assms e have "length b' \<le> length b" "length b \<le> length b'"
    unfolding last_split_def by blast+
  then have "length b = length b'" by simp
  with e show ?thesis by simp
qed

lemma rsplit1_iff:
  assumes "d \<noteq> []"
  shows "rsplit1 d s = Some (b, t) \<longleftrightarrow> last_split d s b t"
proof
  assume "rsplit1 d s = Some (b, t)"
  with assms show "last_split d s b t" by (rule rsplit1_Some)
next
  assume l: "last_split d s b t"
  then have "s = b @ d @ t" by (simp add: last_split_def)
  with rsplit1_None [OF assms, of s b t] obtain b0 t0 where r: "rsplit1 d s = Some (b0, t0)"
    by (cases "rsplit1 d s") auto
  from rsplit1_Some [OF assms r] l have "b0 = b \<and> t0 = t" by (rule last_split_unique)
  with r show "rsplit1 d s = Some (b, t)" by simp
qed

text \<open>
  Claim C8, amended. For every file name and every non-empty delimiter, the parse returns
  a base \<open>b\<close> and a channel token \<open>t\<close> exactly when the file name is \<open>b\<close>, the delimiter
  and \<open>t\<close> with the delimiter at its last occurrence, and \<open>t\<close> is a valid token: a single
  letter or a positive integer in decimal. When there is no such split (the delimiter
  is absent, or what follows its last occurrence is empty, a word of several letters or
  anything else) the whole file name is the base and there is no token.
\<close>

theorem naming_parse_spec:
  assumes "d \<noteq> []"
  shows "(naming_parse name d = (b, Some t) \<longleftrightarrow> last_split d name b t \<and> valid_token t)
    \<and> ((\<nexists>b t. last_split d name b t \<and> valid_token t) \<longrightarrow> naming_parse name d = (name, None))"
proof (cases "rsplit1 d name")
  case None
  then have "\<not> last_split d name b' t'" for b' t'
    using rsplit1_iff [OF assms, of name b' t'] by simp
  with None show ?thesis by (simp add: naming_parse_def)
next
  case (Some bt)
  obtain b0 t0 where bt: "bt = (b0, t0)" by (cases bt)
  have l: "last_split d name b' t' \<longleftrightarrow> b' = b0 \<and> t' = t0" for b' t'
    using rsplit1_iff [OF assms, of name b' t'] Some bt by auto
  show ?thesis using Some bt by (auto simp add: naming_parse_def l)
qed

theorem naming_parse_spec_witness:
  "naming_parse ''sin.wave.R'' ''.'' = (''sin.wave'', Some ''R'')
   \<and> last_split ''.'' ''sin.wave.R'' ''sin.wave'' ''R''
   \<and> valid_token ''R''
   \<and> naming_parse ''sin-m_12'' ''_'' = (''sin-m'', Some ''12'')
   \<and> naming_parse ''sin'' ''.'' = (''sin'', None)"
  using naming_parse_spec [of "''.''" "''sin.wave.R''" "''sin.wave''" "''R''"]
  by (simp add: naming_parse_def valid_token_def isalpha_def isdigit_def less_eq_char_def)

text \<open>
  Claim C8 as the specification words it accepts every remainder that is entirely
  alphabetic. The file name \<open>sin.wave\<close> of \<open>test_file_names\<close> splits at its last dot into
  \<open>sin\<close> and \<open>wave\<close>, and \<open>wave\<close> is entirely alphabetic; the parse keeps \<open>sin.wave\<close> as the
  base and gives no token.
\<close>

theorem naming_parse_alphabetic_counterexample:
  "naming_parse ''sin.wave'' ''.'' = (''sin.wave'', None)
   \<and> rsplit1 ''.'' ''sin.wave'' = Some (''sin'', ''wave'')
   \<and> list_all isalpha ''wave''"
  by (simp add: naming_parse_def valid_token_def isalpha_def isdigit_def less_eq_char_def)

section \<open>Read-only mode\<close>

text \<open>
  Claim C3, amended. Under read-only mode \<open>proceed\<close> returns the display name of the
  action it would execute, the resolved one when the action is \<open>Default\<close>, and leaves the
  disk as it is, for every action, \<open>Monoize\<close> included, and whatever the operations do.
\<close>

theorem proceed_read_only:
  "proceed ops resolved True act d
     = (Some (action_name (if act = Default then resolved else act)), d)"
  by (simp add: proceed_def Let_def)

theorem proceed_read_only_witness:
  "proceed mono_ops NoAction True Remove [''0-s.wav''] = (Some ''Remove'', [''0-s.wav''])
   \<and> op_remove mono_ops [''0-s.wav''] = []"
  using proceed_read_only [of mono_ops NoAction Remove "[''0-s.wav'']"]
  by (simp add: mono_ops_def)

text \<open>
  Claim C3 as the specification words it has a resolved \<open>Monoize\<close> executed even under
  read-only mode. With the action \<open>Monoize\<close> and read-only mode on, \<open>proceed\<close> reports
  \<open>Monoize\<close> and the disk is unchanged, although the operation itself would change it, as
  it does with read-only mode off; this is \<open>test_proceed_read_only\<close>.
\<close>

theorem proceed_monoize_counterexample:
  "proceed mono_ops NoAction True Monoize [''sin-s.wav''] = (Some ''Monoize'', [''sin-s.wav''])
   \<and> op_monoize mono_ops [''sin-s.wav''] = [''sin-s.wav (mono)'', ''sin-s.wav'']
   \<and> proceed mono_ops NoAction False Monoize [''sin-s.wav'']
       = (None, [''sin-s.wav (mono)'', ''sin-s.wav''])
   \<and> proceed mono_ops NoAction True Default [''sin-s.wav''] = (Some ''None'', [''sin-s.wav''])"
  by (simp add: proceed_def mono_ops_def)

end
